theory Spec2Isabelle
  imports Main "HOL-Library.Word"
begin

section \<open>Parallel sum of matrix traces (Laba_2/parallel_trace.cpp)\<close>

text \<open>
  The program fills a collection of square integer matrices, and for each thread count of
  a fixed list splits the collection into contiguous index ranges, lets one worker per
  range add up the traces of its matrices into a slot of its own, joins the workers and
  adds up the slots.

  Data: a C++ \<open>int\<close> element is a \<open>32 word\<close>, a \<open>long long\<close> accumulator a
  \<open>64 word\<close> (addition wraps as on a two's complement machine, \<open>sint\<close> reads the signed
  value; the section on overflow shows that under the program's parameters no addition
  wraps). A
  \<open>std::vector\<close> is a list; \<open>operator[]\<close> outside the vector is undefined behaviour in
  C++, which the model makes a value: the fault \<open>OutOfRange\<close>. Loop counters and range
  bounds are \<open>int\<close>; every value they take lies between 0 and the collection size (lemma
  \<open>launch_threads_bounds\<close>), so the 32-bit counter of the source never wraps there.

  The two global constants \<open>MATRIX_SIZE\<close> and \<open>NUM_MATRICES\<close> are parameters of the
  functions that read them (the first argument, named \<open>msize\<close> or \<open>num\<close>); the program is
  the instance at \<open>MATRIX_SIZE = 50\<close> and \<open>NUM_MATRICES = 1000\<close>.
\<close>

subsection \<open>Constants and types\<close>

type_synonym cint = "32 word"
type_synonym long_long = "64 word"
type_synonym Matrix = "cint list list"

definition NUM_MATRICES :: int where
  "NUM_MATRICES = 1000"

definition MATRIX_SIZE :: int where
  "MATRIX_SIZE = 50"

definition RANDOM_MIN :: int where
  "RANDOM_MIN = - 100"

definition RANDOM_MAX :: int where
  "RANDOM_MAX = 100"

datatype fault = OutOfRange | DivisionByZero | LengthError

text \<open>\<open>v[i]\<close> on a vector, with the index an \<open>int\<close>.\<close>

definition at :: "'a list \<Rightarrow> int \<Rightarrow> fault + 'a" where
  "at v i = (if 0 \<le> i \<and> i < int (length v) then Inr (v ! nat i) else Inl OutOfRange)"

subsection \<open>calculate_trace\<close>

text \<open>
  \<^verbatim>\<open>long long trace = 0;
  for (int i = 0; i < MATRIX_SIZE; ++i) { trace += matrix[i][i]; }
  return trace;\<close>
  The element is an \<open>int\<close>, converted to \<open>long long\<close> with its sign (\<open>scast\<close>) before
  the addition.
\<close>

function trace_loop :: "int \<Rightarrow> Matrix \<Rightarrow> int \<Rightarrow> long_long \<Rightarrow> fault + long_long" where
  "trace_loop msize matrix i trace =
     (if i < msize then
        (case at matrix i of
           Inl e \<Rightarrow> Inl e
         | Inr row \<Rightarrow>
             (case at row i of
                Inl e \<Rightarrow> Inl e
              | Inr x \<Rightarrow> trace_loop msize matrix (i + 1) (trace + scast x)))
      else Inr trace)"
  by pat_completeness auto
termination
  by (relation "measure (\<lambda>(msize, matrix, i, trace). nat (msize - i))") auto

definition calculate_trace :: "int \<Rightarrow> Matrix \<Rightarrow> fault + long_long" where
  "calculate_trace msize matrix = trace_loop msize matrix 0 0"

subsection \<open>trace_worker\<close>

text \<open>
  \<^verbatim>\<open>long long partial_sum = 0;
  for (int i = start_index; i < end_index; ++i) { partial_sum += calculate_trace(matrices[i]); }
  result = partial_sum;\<close>
  The worker's value is what it stores in \<open>result\<close>; the caller binds \<open>result\<close> to the
  worker's slot.
\<close>

function worker_loop ::
  "int \<Rightarrow> Matrix list \<Rightarrow> int \<Rightarrow> int \<Rightarrow> long_long \<Rightarrow> fault + long_long" where
  "worker_loop msize matrices i end_index partial_sum =
     (if i < end_index then
        (case at matrices i of
           Inl e \<Rightarrow> Inl e
         | Inr matrix \<Rightarrow>
             (case calculate_trace msize matrix of
                Inl e \<Rightarrow> Inl e
              | Inr t \<Rightarrow> worker_loop msize matrices (i + 1) end_index (partial_sum + t)))
      else Inr partial_sum)"
  by pat_completeness auto
termination
  by (relation "measure (\<lambda>(msize, matrices, i, end_index, partial_sum). nat (end_index - i))")
     auto

definition trace_worker :: "int \<Rightarrow> Matrix list \<Rightarrow> int \<Rightarrow> int \<Rightarrow> fault + long_long" where
  "trace_worker msize matrices start_index end_index =
     worker_loop msize matrices start_index end_index 0"

subsection \<open>One trial of main: launch, join, aggregate\<close>

text \<open>
  A launched thread is the call it was created with: its index range and the slot of
  \<open>partial_results\<close> its \<open>result\<close> reference is bound to.
\<close>

record worker_thread =
  start_index :: int
  end_index :: int
  result_slot :: nat

text \<open>
  \<^verbatim>\<open>for (int i = 0; i < num_threads; ++i) {
      int start_index = i * matrices_per_thread;
      int end_index = (i == num_threads - 1) ? NUM_MATRICES : start_index + matrices_per_thread;
      threads.emplace_back(trace_worker, std::ref(matrices), start_index, end_index,
                           std::ref(partial_results[i]));
  }\<close>
\<close>

function launch_loop ::
  "int \<Rightarrow> int \<Rightarrow> int \<Rightarrow> int \<Rightarrow> worker_thread list \<Rightarrow> worker_thread list" where
  "launch_loop num num_threads matrices_per_thread i threads =
     (if i < num_threads then
        (let start_index = i * matrices_per_thread;
             end_index = (if i = num_threads - 1 then num
                          else start_index + matrices_per_thread)
         in launch_loop num num_threads matrices_per_thread (i + 1)
              (threads @ [\<lparr>start_index = start_index, end_index = end_index,
                           result_slot = nat i\<rparr>]))
      else threads)"
  by pat_completeness auto
termination
  by (relation "measure (\<lambda>(num, num_threads, per, i, threads). nat (num_threads - i))") auto

text \<open>
  The threads of a trial: \<open>matrices_per_thread = NUM_MATRICES / num_threads\<close>, then the
  launch loop from 0. Both operands are positive where the division is reached, so the
  truncating division of C++ is \<open>div\<close>.
\<close>

definition launch_threads :: "int \<Rightarrow> int \<Rightarrow> worker_thread list" where
  "launch_threads num num_threads =
     launch_loop num num_threads (num div num_threads) 0 []"

text \<open>
  \<^verbatim>\<open>for (auto& t : threads) { t.join(); }\<close>
  When the loop is over every worker has run to its end and stored its sum. A worker reads
  the shared collection and writes its own slot only, so its sum does not depend on how the
  workers interleave; the model runs them in the order of the joins.
\<close>

fun join_all ::
  "int \<Rightarrow> Matrix list \<Rightarrow> worker_thread list \<Rightarrow> long_long list \<Rightarrow> fault + long_long list" where
  "join_all msize matrices [] partial_results = Inr partial_results"
| "join_all msize matrices (t # threads) partial_results =
     (case trace_worker msize matrices (start_index t) (end_index t) of
        Inl e \<Rightarrow> Inl e
      | Inr r \<Rightarrow> join_all msize matrices threads (partial_results[result_slot t := r]))"

text \<open>
  \<^verbatim>\<open>long long total_trace = 0;
  for (long long res : partial_results) { total_trace += res; }\<close>
\<close>

definition aggregate :: "long_long list \<Rightarrow> long_long" where
  "aggregate partial_results = fold (\<lambda>res total_trace. total_trace + res) partial_results 0"

text \<open>
  The body of the loop over \<open>thread_counts\<close>, without the clock and the printing.
  \<open>std::vector<long long> partial_results(num_threads)\<close> throws on a negative count
  (it is converted to an enormous unsigned size) and holds zeros otherwise; the division
  by a count of 0 is undefined.
\<close>

definition run_trial :: "int \<Rightarrow> int \<Rightarrow> Matrix list \<Rightarrow> int \<Rightarrow> fault + long_long" where
  "run_trial num msize matrices num_threads =
     (if num_threads < 0 then Inl LengthError
      else if num_threads = 0 then Inl DivisionByZero
      else
        (case join_all msize matrices (launch_threads num num_threads)
                (replicate (nat num_threads) 0) of
           Inl e \<Rightarrow> Inl e
         | Inr partial_results \<Rightarrow> Inr (aggregate partial_results)))"

subsection \<open>main\<close>





subsection \<open>The reference of the refinement\<close>

text \<open>
  The sequential sum of the specification: one pass over the whole collection, adding the
  trace of each matrix. It is what the total of a trial is compared with.
\<close>

fun sequential_total :: "int \<Rightarrow> Matrix list \<Rightarrow> fault + long_long" where
  "sequential_total n [] = Inr 0"
| "sequential_total n (matrix # matrices) =
     (case calculate_trace n matrix of
        Inl e \<Rightarrow> Inl e
      | Inr t \<Rightarrow>
          (case sequential_total n matrices of
             Inl e \<Rightarrow> Inl e
           | Inr r \<Rightarrow> Inr (t + r)))"

subsection \<open>Notions used in the statements\<close>

text \<open>
  The sums over the unbounded integers: the trace over the first \<open>n\<close> diagonal positions of
  a matrix, and the sum of the traces of the matrices with indices in \<open>[a, b)\<close>. A 64-bit
  accumulation has not overflowed when its signed value is the corresponding exact sum.
\<close>

definition exact_trace :: "int \<Rightarrow> Matrix \<Rightarrow> int" where
  "exact_trace n matrix = (\<Sum>i = 0..<nat n. sint (matrix ! i ! i))"

definition exact_sum :: "int \<Rightarrow> Matrix list \<Rightarrow> int \<Rightarrow> int \<Rightarrow> int" where
  "exact_sum n matrices a b = (\<Sum>j = nat a..<nat b. exact_trace n (matrices ! j))"

text \<open>
  What the construction and the filling of the collection give for each matrix: \<open>n\<close> rows
  of \<open>n\<close> columns, every element between \<open>lo\<close> and \<open>hi\<close>.
\<close>

definition bounded_matrix :: "int \<Rightarrow> int \<Rightarrow> int \<Rightarrow> Matrix \<Rightarrow> bool" where
  "bounded_matrix n lo hi matrix \<longleftrightarrow>
     length matrix = nat n \<and>
     (\<forall>row \<in> set matrix. length row = nat n \<and> (\<forall>x \<in> set row. lo \<le> sint x \<and> sint x \<le> hi))"

text \<open>The indices of a worker's range.\<close>

definition index_range :: "worker_thread \<Rightarrow> int set" where
  "index_range t = {start_index t..<end_index t}"

subsection \<open>Closed forms used in the proofs\<close>

text \<open>
  What the loops compute, written without the loops. \<open>trace_ok\<close> says that the first \<open>n\<close>
  diagonal positions of a matrix exist and \<open>trace_val\<close> is the 64-bit sum over them;
  \<open>range_ok\<close> says that the indices in \<open>[a, b)\<close> are indices of the collection whose
  matrices have these positions, and \<open>range_sum\<close> is the 64-bit sum of their traces.
\<close>

definition diag_ok :: "Matrix \<Rightarrow> nat \<Rightarrow> bool" where
  "diag_ok matrix j \<longleftrightarrow> j < length matrix \<and> j < length (matrix ! j)"

definition trace_ok :: "int \<Rightarrow> Matrix \<Rightarrow> bool" where
  "trace_ok n matrix \<longleftrightarrow> (\<forall>j<nat n. diag_ok matrix j)"

definition trace_val :: "int \<Rightarrow> Matrix \<Rightarrow> long_long" where
  "trace_val n matrix = (\<Sum>j = 0..<nat n. scast (matrix ! j ! j))"

definition range_ok :: "int \<Rightarrow> Matrix list \<Rightarrow> int \<Rightarrow> int \<Rightarrow> bool" where
  "range_ok n matrices a b \<longleftrightarrow>
     (\<forall>j. a \<le> j \<and> j < b \<longrightarrow>
        0 \<le> j \<and> j < int (length matrices) \<and> trace_ok n (matrices ! nat j))"

definition range_sum :: "int \<Rightarrow> Matrix list \<Rightarrow> int \<Rightarrow> int \<Rightarrow> long_long" where
  "range_sum n matrices a b = (\<Sum>j \<in> {a..<b}. trace_val n (matrices ! nat j))"

text \<open>The worker that the launch loop creates at the counter value \<open>i\<close>.\<close>

definition mk_thread :: "int \<Rightarrow> int \<Rightarrow> int \<Rightarrow> int \<Rightarrow> worker_thread" where
  "mk_thread num num_threads per i =
     \<lparr>start_index = i * per,
      end_index = (if i = num_threads - 1 then num else i * per + per),
      result_slot = nat i\<rparr>"

definition worker_value :: "int \<Rightarrow> Matrix list \<Rightarrow> worker_thread \<Rightarrow> long_long" where
  "worker_value n matrices t = range_sum n matrices (start_index t) (end_index t)"

definition worker_ok :: "int \<Rightarrow> Matrix list \<Rightarrow> worker_thread \<Rightarrow> bool" where
  "worker_ok n matrices t = range_ok n matrices (start_index t) (end_index t)"

text \<open>
  A list of workers whose ranges follow one another from \<open>a\<close> to \<open>b\<close>: each starts where
  the one before ends, and no range has a negative length.
\<close>

fun chain :: "int \<Rightarrow> worker_thread list \<Rightarrow> int \<Rightarrow> bool" where
  "chain a [] b \<longleftrightarrow> a = b"
| "chain a (t # ts) b \<longleftrightarrow>
     start_index t = a \<and> a \<le> end_index t \<and> chain (end_index t) ts b"

section \<open>Properties of the loops\<close>

text \<open>
  Each loop is characterised by its closed form, by induction along its own recursion. The
  recursion equations are then taken out of the simplifier's set, which would unfold them
  without end.
\<close>

declare trace_loop.simps [simp del] worker_loop.simps [simp del] launch_loop.simps [simp del]

lemma at_eq: "0 \<le> i \<Longrightarrow> at v i = (if nat i < length v then Inr (v ! nat i) else Inl OutOfRange)"
  by (auto simp: at_def)

lemma trace_loop_eq:
  "0 \<le> i \<Longrightarrow>
   trace_loop n m i acc =
     (if \<forall>j. nat i \<le> j \<and> j < nat n \<longrightarrow> diag_ok m j
      then Inr (acc + (\<Sum>j = nat i..<nat n. scast (m ! j ! j)))
      else Inl OutOfRange)"
proof (induction n m i acc rule: trace_loop.induct)
  case (1 n m i acc)
  show ?case
  proof (cases "i < n")
    case False
    with "1.prems" show ?thesis
      by (subst trace_loop.simps) auto
  next
    case True
    with "1.prems" have lt: "nat i < nat n" by simp
    have suc: "nat (i + 1) = Suc (nat i)" using "1.prems" by simp
    show ?thesis
    proof (cases "diag_ok m (nat i)")
      case False
      then have "trace_loop n m i acc = Inl OutOfRange"
        using True "1.prems"
        by (subst trace_loop.simps) (auto simp: at_eq diag_ok_def)
      moreover have "\<not> (\<forall>j. nat i \<le> j \<and> j < nat n \<longrightarrow> diag_ok m j)"
        using False lt by auto
      ultimately show ?thesis by simp
    next
      case ok: True
      then have a1: "at m i = Inr (m ! nat i)" and a2: "at (m ! nat i) i = Inr (m ! nat i ! nat i)"
        using "1.prems" by (auto simp: at_eq diag_ok_def)
      have step: "trace_loop n m i acc = trace_loop n m (i + 1) (acc + scast (m ! nat i ! nat i))"
        using True by (subst trace_loop.simps) (simp add: a1 a2)
      have ih: "trace_loop n m (i + 1) (acc + scast (m ! nat i ! nat i)) =
          (if \<forall>j. nat (i + 1) \<le> j \<and> j < nat n \<longrightarrow> diag_ok m j
           then Inr (acc + scast (m ! nat i ! nat i) + (\<Sum>j = nat (i + 1)..<nat n. scast (m ! j ! j)))
           else Inl OutOfRange)"
        using "1.IH"[OF True a1 a2] "1.prems" by simp
      have all: "(\<forall>j. nat i \<le> j \<and> j < nat n \<longrightarrow> diag_ok m j) \<longleftrightarrow>
                 (\<forall>j. Suc (nat i) \<le> j \<and> j < nat n \<longrightarrow> diag_ok m j)"
        using ok by (metis Suc_leI le_neq_implies_less Suc_leD)
      have sum: "(\<Sum>j = nat i..<nat n. scast (m ! j ! j) :: long_long) =
                 scast (m ! nat i ! nat i) + (\<Sum>j = Suc (nat i)..<nat n. scast (m ! j ! j))"
        using lt by (simp add: sum.atLeast_Suc_lessThan)
      show ?thesis
        unfolding step ih suc all sum by (simp add: add.assoc)
    qed
  qed
qed

lemma calculate_trace_eq:
  "calculate_trace n m = (if trace_ok n m then Inr (trace_val n m) else Inl OutOfRange)"
  by (simp add: calculate_trace_def trace_loop_eq trace_ok_def trace_val_def)

lemma int_ivl_split: "(a::int) < b \<Longrightarrow> {a..<b} = insert a {a + 1..<b}"
  by auto

lemma range_sum_step:
  "a < b \<Longrightarrow> range_sum n ms a b = trace_val n (ms ! nat a) + range_sum n ms (a + 1) b"
  by (simp add: range_sum_def int_ivl_split [of a b])

lemma range_sum_empty: "b \<le> a \<Longrightarrow> range_sum n ms a b = 0"
  by (simp add: range_sum_def)

lemma range_ok_empty: "b \<le> a \<Longrightarrow> range_ok n ms a b"
  by (auto simp: range_ok_def)

lemma all_from_step:
  assumes "(a::int) < b"
  shows "(\<forall>j. a \<le> j \<and> j < b \<longrightarrow> P j) \<longleftrightarrow> P a \<and> (\<forall>j. a + 1 \<le> j \<and> j < b \<longrightarrow> P j)"
proof
  assume "\<forall>j. a \<le> j \<and> j < b \<longrightarrow> P j"
  then show "P a \<and> (\<forall>j. a + 1 \<le> j \<and> j < b \<longrightarrow> P j)"
    using assms by auto
next
  assume R: "P a \<and> (\<forall>j. a + 1 \<le> j \<and> j < b \<longrightarrow> P j)"
  show "\<forall>j. a \<le> j \<and> j < b \<longrightarrow> P j"
  proof (intro allI impI)
    fix j assume j: "a \<le> j \<and> j < b"
    then have "j = a \<or> a + 1 \<le> j" by auto
    then show "P j" using R j by auto
  qed
qed

lemma range_ok_step:
  "a < b \<Longrightarrow> range_ok n ms a b \<longleftrightarrow>
     (0 \<le> a \<and> a < int (length ms) \<and> trace_ok n (ms ! nat a)) \<and> range_ok n ms (a + 1) b"
  unfolding range_ok_def
  by (rule all_from_step)

lemma worker_loop_eq:
  "worker_loop n ms i e acc =
     (if range_ok n ms i e then Inr (acc + range_sum n ms i e) else Inl OutOfRange)"
proof (induction n ms i e acc rule: worker_loop.induct)
  case (1 n ms i e acc)
  show ?case
  proof (cases "i < e")
    case False
    then show ?thesis
      by (subst worker_loop.simps) (simp add: range_ok_empty range_sum_empty)
  next
    case True
    show ?thesis
    proof (cases "0 \<le> i \<and> i < int (length ms) \<and> trace_ok n (ms ! nat i)")
      case False
      then have "worker_loop n ms i e acc = Inl OutOfRange"
        using True by (subst worker_loop.simps) (auto simp: at_def calculate_trace_eq)
      then show ?thesis using False by (auto simp: range_ok_step [OF True])
    next
      case ok: True
      then have a1: "at ms i = Inr (ms ! nat i)"
        and a2: "calculate_trace n (ms ! nat i) = Inr (trace_val n (ms ! nat i))"
        by (auto simp: at_def calculate_trace_eq)
      have step: "worker_loop n ms i e acc = worker_loop n ms (i + 1) e (acc + trace_val n (ms ! nat i))"
        using True by (subst worker_loop.simps) (simp add: a1 a2)
      show ?thesis
        unfolding step "1.IH" [OF True a1 a2]
        using ok by (simp add: range_ok_step [OF True] range_sum_step [OF True] add.assoc)
    qed
  qed
qed

lemma trace_worker_eq:
  "trace_worker n ms a b = (if range_ok n ms a b then Inr (range_sum n ms a b) else Inl OutOfRange)"
  by (simp add: trace_worker_def worker_loop_eq)

lemma launch_loop_eq:
  "launch_loop num N per i ts = ts @ map (mk_thread num N per) [i..N - 1]"
proof (induction num N per i ts rule: launch_loop.induct)
  case (1 num N per i ts)
  show ?case
  proof (cases "i < N")
    case False
    then show ?thesis by (subst launch_loop.simps) simp
  next
    case True
    then have up: "[i..N - 1] = i # [i + 1..N - 1]"
      by (simp add: upto_rec1)
    show ?thesis
      using True "1.IH" [OF True refl refl]
      by (subst launch_loop.simps) (simp add: up mk_thread_def Let_def)
  qed
qed

lemma launch_threads_eq:
  "launch_threads num N = map (mk_thread num N (num div N)) [0..N - 1]"
  by (simp add: launch_threads_def launch_loop_eq)

lemma range_sum_concat:
  "a \<le> c \<Longrightarrow> c \<le> b \<Longrightarrow> range_sum n ms a c + range_sum n ms c b = range_sum n ms a b"
proof -
  assume ac: "a \<le> c" and cb: "c \<le> b"
  have un: "{a..<b} = {a..<c} \<union> {c..<b}" using ac cb by auto
  have dj: "{a..<c} \<inter> {c..<b} = {}" by auto
  show ?thesis
    unfolding range_sum_def un
    by (simp add: sum.union_disjoint dj)
qed

lemma range_ok_concat:
  "a \<le> c \<Longrightarrow> c \<le> b \<Longrightarrow> range_ok n ms a c \<and> range_ok n ms c b \<longleftrightarrow> range_ok n ms a b"
  unfolding range_ok_def
  by (meson linorder_not_less order_less_le_trans order_trans)

lemma chain_le: "chain a ts b \<Longrightarrow> a \<le> b"
proof (induction ts arbitrary: a)
  case Nil
  then show ?case by simp
next
  case (Cons t ts)
  then have "a \<le> end_index t" and "end_index t \<le> b" by auto
  then show ?case by simp
qed

lemma chain_sum:
  "chain a ts b \<Longrightarrow> sum_list (map (worker_value n ms) ts) = range_sum n ms a b"
proof (induction ts arbitrary: a)
  case Nil
  then show ?case by (simp add: range_sum_empty)
next
  case (Cons t ts)
  then have c: "chain (end_index t) ts b" and st: "start_index t = a" and le: "a \<le> end_index t"
    by auto
  from chain_le [OF c] have le2: "end_index t \<le> b" .
  show ?case
    using Cons.IH [OF c] range_sum_concat [OF le le2, of n ms] st
    by (simp add: worker_value_def)
qed

lemma chain_ok:
  "chain a ts b \<Longrightarrow> (\<forall>t \<in> set ts. worker_ok n ms t) \<longleftrightarrow> range_ok n ms a b"
proof (induction ts arbitrary: a)
  case Nil
  then show ?case by (simp add: range_ok_empty)
next
  case (Cons t ts)
  then have c: "chain (end_index t) ts b" and st: "start_index t = a" and le: "a \<le> end_index t"
    by auto
  from chain_le [OF c] have le2: "end_index t \<le> b" .
  show ?case
    using Cons.IH [OF c] range_ok_concat [OF le le2, of n ms] st
    by (auto simp: worker_ok_def)
qed

lemma join_all_eq:
  "join_all n ms ts p =
     (if \<forall>t \<in> set ts. worker_ok n ms t
      then Inr (fold (\<lambda>t p. p[result_slot t := worker_value n ms t]) ts p)
      else Inl OutOfRange)"
  by (induction ts arbitrary: p) (simp_all add: trace_worker_eq worker_ok_def worker_value_def)

lemma fold_store:
  "length p = length pre + length ts \<Longrightarrow>
   map result_slot ts = [length pre..<length pre + length ts] \<Longrightarrow>
   take (length pre) p = pre \<Longrightarrow>
   fold (\<lambda>t p. p[result_slot t := f t]) ts p = pre @ map f ts"
proof (induction ts arbitrary: p pre)
  case Nil
  then show ?case by simp
next
  case (Cons t ts)
  have "[length pre..<length pre + length (t # ts)] =
        length pre # [Suc (length pre)..<Suc (length pre) + length ts]"
    by (simp add: upt_conv_Cons del: upt_Suc)
  with Cons.prems(2) have slot: "result_slot t = length pre"
    and rest: "map result_slot ts = [Suc (length pre)..<Suc (length pre) + length ts]"
    by simp_all
  let ?p = "p[length pre := f t]"
  have len: "length ?p = length (pre @ [f t]) + length ts"
    using Cons.prems(1) by simp
  have tk: "take (length (pre @ [f t])) ?p = pre @ [f t]"
    using Cons.prems(1,3) by (simp add: take_Suc_conv_app_nth)
  have "fold (\<lambda>t p. p[result_slot t := f t]) ts ?p = (pre @ [f t]) @ map f ts"
    by (rule Cons.IH [OF len _ tk]) (simp add: rest)
  then show ?case by (simp add: slot)
qed

lemma map_nat_upto: "0 \<le> N \<Longrightarrow> map nat [0..N - 1] = [0..<nat N]"
  by (rule nth_equalityI) auto

lemma aggregate_eq: "aggregate p = sum_list p"
proof -
  have "fold (\<lambda>res total_trace. total_trace + res) p a = a + sum_list p" for a :: long_long
    by (induction p arbitrary: a) (simp_all add: add.assoc)
  then show ?thesis by (simp add: aggregate_def)
qed

lemma per_bounds:
  assumes "1 \<le> (N::int)" "0 \<le> M"
  shows "0 \<le> M div N" "(N - 1) * (M div N) \<le> M" "N * (M div N) \<le> M"
proof -
  show p: "0 \<le> M div N" using assms by (simp add: pos_imp_zdiv_nonneg_iff)
  show n: "N * (M div N) \<le> M"
    using mult_div_mod_eq [of N M] pos_mod_sign [of N M] assms by linarith
  have "(N - 1) * (M div N) = N * (M div N) - M div N" by (simp add: algebra_simps)
  then show "(N - 1) * (M div N) \<le> M" using p n by linarith
qed

lemma range_sum_nat:
  "0 \<le> a \<Longrightarrow> range_sum n ms a b = (\<Sum>k = nat a..<nat b. trace_val n (ms ! k))"
  unfolding range_sum_def
  by (rule sum.reindex_bij_witness [of _ int nat]) auto

lemma range_sum_all: "range_sum n ms 0 (int (length ms)) = sum_list (map (trace_val n) ms)"
  by (simp add: range_sum_nat sum_list_sum_nth)

lemma range_ok_all: "range_ok n ms 0 (int (length ms)) \<longleftrightarrow> (\<forall>m \<in> set ms. trace_ok n m)"
proof
  assume ok: "range_ok n ms 0 (int (length ms))"
  show "\<forall>m \<in> set ms. trace_ok n m"
  proof
    fix m assume "m \<in> set ms"
    then obtain k where k: "k < length ms" "ms ! k = m" by (auto simp: in_set_conv_nth)
    then show "trace_ok n m" using ok [unfolded range_ok_def, rule_format, of "int k"] by simp
  qed
next
  assume "\<forall>m \<in> set ms. trace_ok n m"
  then show "range_ok n ms 0 (int (length ms))"
    by (auto simp: range_ok_def)
qed

lemma sequential_total_eq:
  "sequential_total n ms =
     (if \<forall>m \<in> set ms. trace_ok n m then Inr (sum_list (map (trace_val n) ms))
      else Inl OutOfRange)"
  by (induction ms) (simp_all add: calculate_trace_eq)

lemma chain_launch:
  assumes N: "1 \<le> N" and M: "0 \<le> M"
  shows "0 \<le> i \<Longrightarrow> i \<le> N - 1 \<Longrightarrow>
         chain (i * (M div N)) (map (mk_thread M N (M div N)) [i..N - 1]) M"
proof (induction "nat (N - 1 - i)" arbitrary: i)
  case 0
  then have i: "i = N - 1" by simp
  have "[i..N - 1] = [i]" using i by (simp add: upto_rec1)
  then show ?case
    using per_bounds(2) [OF N M] i by (simp add: mk_thread_def)
next
  case (Suc k)
  then have lt: "i < N - 1" by simp
  then have up: "[i..N - 1] = i # [i + 1..N - 1]" by (simp add: upto_rec1)
  have ih: "chain ((i + 1) * (M div N)) (map (mk_thread M N (M div N)) [i + 1..N - 1]) M"
    using Suc by (intro Suc.hyps(1)) auto
  have e: "i * (M div N) + M div N = (i + 1) * (M div N)" by (simp add: algebra_simps)
  have le: "i * (M div N) \<le> (i + 1) * (M div N)"
    using per_bounds(1) [OF N M] by (simp add: algebra_simps)
  show ?case
    using lt ih le by (simp add: up mk_thread_def e)
qed

lemma chain_launch_threads:
  "1 \<le> N \<Longrightarrow> 0 \<le> M \<Longrightarrow> chain 0 (launch_threads M N) M"
  using chain_launch [of N M 0] by (simp add: launch_threads_eq)

lemma join_launch:
  assumes N: "1 \<le> N"
  shows "join_all n ms (launch_threads M N) (replicate (nat N) 0) =
           (if \<forall>t \<in> set (launch_threads M N). worker_ok n ms t
            then Inr (map (worker_value n ms) (launch_threads M N))
            else Inl OutOfRange)"
proof -
  let ?ts = "launch_threads M N"
  have len: "length ?ts = nat N" using N by (simp add: launch_threads_eq)
  have slots: "map result_slot ?ts = [0..<nat N]"
    using N map_nat_upto [of N]
    by (simp add: launch_threads_eq mk_thread_def comp_def)
  have "fold (\<lambda>t p. p[result_slot t := worker_value n ms t]) ?ts (replicate (nat N) 0) =
        [] @ map (worker_value n ms) ?ts"
    by (rule fold_store) (simp_all add: len slots)
  then show ?thesis by (simp add: join_all_eq)
qed

lemma run_trial_eq:
  assumes N: "1 \<le> N" and M: "0 \<le> M"
  shows "run_trial M n ms N =
           (if range_ok n ms 0 M then Inr (range_sum n ms 0 M) else Inl OutOfRange)"
proof -
  note c = chain_launch_threads [OF N M]
  show ?thesis
    using N by (simp add: run_trial_def join_launch aggregate_eq chain_sum [OF c] chain_ok [OF c])
qed

lemma sint_add_exact:
  fixes a b :: long_long
  assumes "- (2 ^ 63) \<le> sint a + sint b" "sint a + sint b < 2 ^ 63"
  shows "sint (a + b) = sint a + sint b"
  using assms by (simp add: sint_word_ariths signed_take_bit_int_eq_self)

lemma sint_sum_exact:
  fixes f :: "'i \<Rightarrow> long_long"
  assumes fin: "finite A"
    and bnd: "\<And>j. j \<in> A \<Longrightarrow> \<bar>sint (f j)\<bar> \<le> B"
    and sm: "int (card A) * B < 2 ^ 63"
  shows "sint (sum f A) = (\<Sum>j \<in> A. sint (f j)) \<and> \<bar>\<Sum>j \<in> A. sint (f j)\<bar> \<le> int (card A) * B"
  using fin bnd sm
proof (induction A rule: finite_induct)
  case empty
  then show ?case by simp
next
  case (insert x F)
  have bx: "\<bar>sint (f x)\<bar> \<le> B" using insert.prems(1) by simp
  then have B0: "0 \<le> B" by simp
  have cd: "int (card (insert x F)) * B = int (card F) * B + B"
    using insert.hyps by (simp add: algebra_simps)
  have small: "int (card F) * B < 2 ^ 63"
    using insert.prems(2) B0 unfolding cd by linarith
  have ih: "sint (sum f F) = (\<Sum>j \<in> F. sint (f j))"
    and ihb: "\<bar>\<Sum>j \<in> F. sint (f j)\<bar> \<le> int (card F) * B"
    using insert.IH [OF _ small] insert.prems(1) by auto
  have tot: "\<bar>sint (f x) + sint (sum f F)\<bar> \<le> int (card F) * B + B"
    using bx ihb ih by linarith
  have lim: "int (card F) * B + B < 2 ^ 63"
    using insert.prems(2) unfolding cd .
  have "sint (f x + sum f F) = sint (f x) + sint (sum f F)"
    using tot lim by (intro sint_add_exact) linarith+
  then show ?case
    using insert.hyps tot ih unfolding cd by simp
qed

lemma sint_scast_cint: "sint (scast (x :: cint) :: long_long) = sint x"
  by (rule sint_up_scast) (simp add: is_up)

lemma sint_cint_bound: "\<bar>sint (x :: cint)\<bar> \<le> 2147483648"
  using sint_ge [of x] sint_lt [of x] by simp

lemma trace_val_exact:
  assumes n: "n < 2 ^ 31"
  shows "sint (trace_val n m) = exact_trace n m"
proof -
  have "int (card {0..<nat n}) * 2 ^ 31 < 2 ^ 63"
  proof -
    have "int (card {0..<nat n}) \<le> 2 ^ 31" using n by simp
    then have "int (card {0..<nat n}) * 2 ^ 31 \<le> 2 ^ 31 * 2 ^ 31"
      by (rule mult_right_mono) simp
    then show ?thesis by simp
  qed
  then have "sint (\<Sum>j = 0..<nat n. scast (m ! j ! j) :: long_long) =
             (\<Sum>j = 0..<nat n. sint (scast (m ! j ! j) :: long_long))"
    by (intro sint_sum_exact [where B = "2 ^ 31", THEN conjunct1])
       (simp_all add: sint_scast_cint sint_cint_bound)
  then show ?thesis
    by (simp add: trace_val_def exact_trace_def sint_scast_cint)
qed

lemma length_launch: "0 \<le> N \<Longrightarrow> length (launch_threads M N) = nat N"
  by (simp add: launch_threads_eq)

lemma nth_launch:
  "k < nat N \<Longrightarrow> launch_threads M N ! k = mk_thread M N (M div N) (int k)"
  by (simp add: launch_threads_eq)

lemma chain_bounds:
  "chain a ts b \<Longrightarrow> t \<in> set ts \<Longrightarrow> a \<le> start_index t \<and> start_index t \<le> end_index t \<and> end_index t \<le> b"
proof (induction ts arbitrary: a)
  case Nil
  then show ?case by simp
next
  case (Cons u ts)
  then have c: "chain (end_index u) ts b" and st: "start_index u = a" and le: "a \<le> end_index u"
    by auto
  show ?case
  proof (cases "t = u")
    case True
    then show ?thesis using st le chain_le [OF c] by simp
  next
    case False
    then have "t \<in> set ts" using Cons.prems(2) by simp
    from Cons.IH [OF c this] le show ?thesis by simp
  qed
qed

lemma chain_cover:
  "chain a ts b \<Longrightarrow> a \<le> j \<Longrightarrow> j < b \<Longrightarrow> \<exists>t \<in> set ts. start_index t \<le> j \<and> j < end_index t"
proof (induction ts arbitrary: a)
  case Nil
  then show ?case by simp
next
  case (Cons u ts)
  then have c: "chain (end_index u) ts b" and st: "start_index u = a"
    by auto
  show ?case
  proof (cases "j < end_index u")
    case True
    then show ?thesis using st Cons.prems(2) by auto
  next
    case False
    then have "end_index u \<le> j" by simp
    from Cons.IH [OF c this Cons.prems(3)] show ?thesis by auto
  qed
qed

lemma launch_threads_bounds:
  assumes "1 \<le> N" "0 \<le> M" "t \<in> set (launch_threads M N)"
  shows "0 \<le> start_index t \<and> start_index t \<le> end_index t \<and> end_index t \<le> M"
  using chain_bounds [OF chain_launch_threads [OF assms(1,2)] assms(3)] .

lemma per_pos: "1 \<le> (N::int) \<Longrightarrow> N \<le> M \<Longrightarrow> 1 \<le> M div N"
  using pos_imp_zdiv_pos_iff [of N M] by simp

lemma launch_ordered:
  assumes N: "1 \<le> N" and M: "0 \<le> M" and k: "k < k'" "k' < nat N"
  shows "end_index (launch_threads M N ! k) \<le> start_index (launch_threads M N ! k')"
proof -
  have "int k + 1 \<le> int k'" using k by simp
  then have "(int k + 1) * (M div N) \<le> int k' * (M div N)"
    using per_bounds(1) [OF N M] by (rule mult_right_mono)
  moreover have "int k \<noteq> N - 1" using k by linarith
  ultimately show ?thesis
    using k by (simp add: nth_launch mk_thread_def algebra_simps)
qed

lemma bounded_trace:
  assumes b: "bounded_matrix MATRIX_SIZE RANDOM_MIN RANDOM_MAX m"
    and n: "0 \<le> n" "n \<le> MATRIX_SIZE"
  shows "trace_ok n m \<and> sint (trace_val n m) = exact_trace n m \<and> \<bar>exact_trace n m\<bar> \<le> 100 * n"
proof -
  have n50: "nat n \<le> 50" using n by (simp add: MATRIX_SIZE_def)
  have len: "length m = 50" and rows: "\<And>row. row \<in> set m \<Longrightarrow> length row = 50"
    and el: "\<And>row x. row \<in> set m \<Longrightarrow> x \<in> set row \<Longrightarrow> \<bar>sint x\<bar> \<le> 100"
    using b by (fastforce simp: bounded_matrix_def MATRIX_SIZE_def RANDOM_MIN_def RANDOM_MAX_def)+
  have d: "\<bar>sint (m ! i ! i)\<bar> \<le> 100" and ok: "diag_ok m i" if "i < nat n" for i
  proof -
    have i: "i < 50" using that n50 by simp
    then have r: "m ! i \<in> set m" using len by simp
    then have "m ! i ! i \<in> set (m ! i)" using rows [OF r] i by simp
    from el [OF r this] show "\<bar>sint (m ! i ! i)\<bar> \<le> 100" .
    show "diag_ok m i" using i len rows [OF r] by (simp add: diag_ok_def)
  qed
  have "n < 2 ^ 31" using n by (simp add: MATRIX_SIZE_def)
  then have ex: "sint (trace_val n m) = exact_trace n m" by (rule trace_val_exact)
  have "\<bar>exact_trace n m\<bar> \<le> (\<Sum>i = 0..<nat n. \<bar>sint (m ! i ! i)\<bar>)"
    unfolding exact_trace_def by (rule sum_abs)
  also have "\<dots> \<le> (\<Sum>i = 0..<nat n. 100)"
    by (rule sum_mono) (simp add: d)
  also have "\<dots> = 100 * n" using n by simp
  finally have "\<bar>exact_trace n m\<bar> \<le> 100 * n" .
  then show ?thesis using ok ex by (simp add: trace_ok_def)
qed

lemma bounded_range:
  assumes len: "length ms = nat NUM_MATRICES"
    and b: "\<forall>m \<in> set ms. bounded_matrix MATRIX_SIZE RANDOM_MIN RANDOM_MAX m"
    and r: "0 \<le> a" "a \<le> c" "c \<le> NUM_MATRICES"
  shows "range_ok MATRIX_SIZE ms a c \<and>
         sint (range_sum MATRIX_SIZE ms a c) = exact_sum MATRIX_SIZE ms a c \<and>
         \<bar>exact_sum MATRIX_SIZE ms a c\<bar> \<le> 5000 * (c - a)"
proof -
  have k: "trace_ok MATRIX_SIZE (ms ! k) \<and>
           sint (trace_val MATRIX_SIZE (ms ! k)) = exact_trace MATRIX_SIZE (ms ! k) \<and>
           \<bar>exact_trace MATRIX_SIZE (ms ! k)\<bar> \<le> 5000" if "k < nat c" for k
  proof -
    have "k < length ms" using that r len by simp
    then have "bounded_matrix MATRIX_SIZE RANDOM_MIN RANDOM_MAX (ms ! k)" using b by simp
    from bounded_trace [OF this, of MATRIX_SIZE] show ?thesis by (simp add: MATRIX_SIZE_def)
  qed
  have ok: "range_ok MATRIX_SIZE ms a c"
    unfolding range_ok_def
  proof (intro allI impI)
    fix j assume j: "a \<le> j \<and> j < c"
    then have "nat j < nat c" using r by simp
    from k [OF this] show "0 \<le> j \<and> j < int (length ms) \<and> trace_ok MATRIX_SIZE (ms ! nat j)"
      using j r len by simp
  qed
  have card: "int (card {nat a..<nat c}) = c - a" using r by simp
  have "c - a \<le> 1000" using r by (simp add: NUM_MATRICES_def)
  then have small: "int (card {nat a..<nat c}) * 5000 < 2 ^ 63" unfolding card by simp
  have bnd: "\<bar>sint (trace_val MATRIX_SIZE (ms ! j))\<bar> \<le> 5000" if "j \<in> {nat a..<nat c}" for j
    using k [of j] that by simp
  from sint_sum_exact [of "{nat a..<nat c}" "\<lambda>j. trace_val MATRIX_SIZE (ms ! j)" 5000,
      OF _ bnd small]
  have s: "sint (\<Sum>j = nat a..<nat c. trace_val MATRIX_SIZE (ms ! j)) =
           (\<Sum>j = nat a..<nat c. sint (trace_val MATRIX_SIZE (ms ! j)))"
    and sb: "\<bar>\<Sum>j = nat a..<nat c. sint (trace_val MATRIX_SIZE (ms ! j))\<bar> \<le> (c - a) * 5000"
    unfolding card by simp_all
  have eq: "(\<Sum>j = nat a..<nat c. sint (trace_val MATRIX_SIZE (ms ! j))) = exact_sum MATRIX_SIZE ms a c"
    unfolding exact_sum_def by (rule sum.cong) (simp_all add: k)
  show ?thesis
    using ok s sb eq r(1) by (simp add: range_sum_nat)
qed

lemma exact_sum_concat:
  "0 \<le> a \<Longrightarrow> a \<le> c \<Longrightarrow> c \<le> b \<Longrightarrow> exact_sum n ms a c + exact_sum n ms c b = exact_sum n ms a b"
  unfolding exact_sum_def by (rule sum.atLeastLessThan_concat) simp_all

lemma chain_exact:
  assumes len: "length ms = nat NUM_MATRICES"
    and b: "\<forall>m \<in> set ms. bounded_matrix MATRIX_SIZE RANDOM_MIN RANDOM_MAX m"
  shows "chain a ts c \<Longrightarrow> 0 \<le> a \<Longrightarrow> c \<le> NUM_MATRICES \<Longrightarrow>
         sum_list (map sint (map (worker_value MATRIX_SIZE ms) ts)) = exact_sum MATRIX_SIZE ms a c"
proof (induction ts arbitrary: a)
  case Nil
  then show ?case by (simp add: exact_sum_def)
next
  case (Cons t ts)
  then have c: "chain (end_index t) ts c" and st: "start_index t = a" and le: "a \<le> end_index t"
    by auto
  from chain_le [OF c] have le2: "end_index t \<le> c" .
  have e0: "0 \<le> end_index t" using le Cons.prems(2) by simp
  have eN: "end_index t \<le> NUM_MATRICES" using le2 Cons.prems(3) by simp
  have "sint (worker_value MATRIX_SIZE ms t) = exact_sum MATRIX_SIZE ms a (end_index t)"
    using bounded_range [OF len b Cons.prems(2) le eN] st by (simp add: worker_value_def)
  then show ?case
    using Cons.IH [OF c e0 Cons.prems(3)] exact_sum_concat [OF Cons.prems(2) le le2, of MATRIX_SIZE ms]
    by simp
qed

lemma chain_take:
  "chain a ts b \<Longrightarrow> \<exists>c. chain a (take k ts) c \<and> a \<le> c \<and> c \<le> b"
proof (induction ts arbitrary: a k)
  case Nil
  then show ?case by simp
next
  case (Cons t ts)
  then have c: "chain (end_index t) ts b" and st: "start_index t = a" and le: "a \<le> end_index t"
    by auto
  show ?case
  proof (cases k)
    case 0
    then show ?thesis using chain_le [OF Cons.prems] by simp
  next
    case (Suc k')
    from Cons.IH [OF c, of k'] obtain c' where
      "chain (end_index t) (take k' ts) c'" "end_index t \<le> c'" "c' \<le> b" by blast
    then show ?thesis using Suc st le by auto
  qed
qed

lemma trace_loop_accumulator:
  assumes "0 \<le> i" "i \<le> n" "trace_ok i m"
  shows "trace_loop n m 0 0 = trace_loop n m i (trace_val i m)"
proof -
  have c: "(\<forall>j. nat 0 \<le> j \<and> j < nat n \<longrightarrow> diag_ok m j) \<longleftrightarrow>
           (\<forall>j. nat i \<le> j \<and> j < nat n \<longrightarrow> diag_ok m j)"
    using assms(3) by (auto simp: trace_ok_def) (meson not_le_imp_less)
  have s: "(\<Sum>j = 0..<nat n. scast (m ! j ! j) :: long_long) =
           (\<Sum>j = 0..<nat i. scast (m ! j ! j)) + (\<Sum>j = nat i..<nat n. scast (m ! j ! j))"
    using assms(1,2) by (simp add: sum.atLeastLessThan_concat)
  show ?thesis
    using assms(1) c s by (simp add: trace_loop_eq trace_val_def)
qed

lemma worker_loop_accumulator:
  assumes "a \<le> c" "c \<le> b" "range_ok n ms a c"
  shows "worker_loop n ms a b 0 = worker_loop n ms c b (range_sum n ms a c)"
  using assms range_ok_concat [OF assms(1,2), of n ms] range_sum_concat [OF assms(1,2), of n ms]
  by (auto simp: worker_loop_eq)





section \<open>The trace reducer\<close>

text \<open>
  Claim C3. For a square matrix whose side is the size constant \<open>S\<close> (an \<open>int\<close>, so
  below \<open>2 ^ 31\<close>), \<open>calculate_trace\<close> returns the sum of the elements at the positions
  \<open>(i, i)\<close> for \<open>i\<close> in \<open>[0, S)\<close>. The sum is exact: read as a signed 64-bit value it
  is the integer sum of the signed elements. The function receives the matrix by constant
  reference and the model by value: its only result is the trace.
\<close>

theorem calculate_trace_square:
  assumes "0 \<le> S" "S < 2 ^ 31" "length m = nat S" "\<forall>row \<in> set m. length row = nat S"
  shows "calculate_trace S m = Inr (\<Sum>i = 0..<nat S. scast (m ! i ! i)) \<and>
         sint (\<Sum>i = 0..<nat S. scast (m ! i ! i) :: long_long) =
           (\<Sum>i = 0..<nat S. sint (m ! i ! i))"
proof -
  have "trace_ok S m"
    using assms(3,4) by (auto simp: trace_ok_def diag_ok_def)
  then have "calculate_trace S m = Inr (trace_val S m)"
    by (simp add: calculate_trace_eq)
  moreover have "sint (trace_val S m) = exact_trace S m"
    using assms(2) by (rule trace_val_exact)
  ultimately show ?thesis
    by (simp add: trace_val_def exact_trace_def)
qed

theorem calculate_trace_square_witness:
  "calculate_trace 3 [[1, 2, 3], [4, 5, 6], [7, 8, 9]] = Inr 15 \<and>
   sint (15 :: long_long) = sint (1 :: cint) + sint (5 :: cint) + sint (9 :: cint)"
  using calculate_trace_square [of 3 "[[1, 2, 3], [4, 5, 6], [7, 8, 9]]"]
  by (simp add: eval_nat_numeral)

text \<open>
  Claim C10. With the program's constant \<open>MATRIX_SIZE = 50\<close>, \<open>calculate_trace\<close> reads
  \<open>matrix[i][i]\<close> for \<open>i\<close> from 0 to 49 whatever the dimensions of its argument are. It
  returns a value exactly when the matrix has at least 50 rows and row \<open>i\<close> has at least
  \<open>i + 1\<close> columns for every \<open>i\<close> below 50, and that value is the sum over these 50
  positions; otherwise a read is out of range. In particular a matrix with fewer than 50
  rows, or with all rows shorter than 50, is read out of range.
\<close>

theorem calculate_trace_in_range_iff:
  "((\<exists>t. calculate_trace MATRIX_SIZE m = Inr t) \<longleftrightarrow>
      50 \<le> length m \<and> (\<forall>i<50. i + 1 \<le> length (m ! i))) \<and>
   (calculate_trace MATRIX_SIZE m = Inl OutOfRange \<longleftrightarrow>
      \<not> (50 \<le> length m \<and> (\<forall>i<50. i + 1 \<le> length (m ! i)))) \<and>
   (calculate_trace MATRIX_SIZE m = Inr t \<longrightarrow> t = (\<Sum>i = 0..<50. scast (m ! i ! i))) \<and>
   (length m < 50 \<or> (\<forall>row \<in> set m. length row < 50) \<longrightarrow>
      calculate_trace MATRIX_SIZE m = Inl OutOfRange)"
proof -
  have ok: "trace_ok MATRIX_SIZE m \<longleftrightarrow> 50 \<le> length m \<and> (\<forall>i<50. i + 1 \<le> length (m ! i))"
  proof
    assume a: "trace_ok MATRIX_SIZE m"
    then have "diag_ok m 49" by (simp add: trace_ok_def MATRIX_SIZE_def)
    then have "50 \<le> length m" by (simp add: diag_ok_def)
    moreover have "\<forall>i<50. i + 1 \<le> length (m ! i)"
      using a by (auto simp: trace_ok_def MATRIX_SIZE_def diag_ok_def)
    ultimately show "50 \<le> length m \<and> (\<forall>i<50. i + 1 \<le> length (m ! i))" by simp
  next
    assume "50 \<le> length m \<and> (\<forall>i<50. i + 1 \<le> length (m ! i))"
    then show "trace_ok MATRIX_SIZE m"
      by (auto simp: trace_ok_def MATRIX_SIZE_def diag_ok_def)
  qed
  have small: "\<not> trace_ok MATRIX_SIZE m"
    if "length m < 50 \<or> (\<forall>row \<in> set m. length row < 50)"
  proof
    assume "trace_ok MATRIX_SIZE m"
    then have l: "50 \<le> length m" and al: "\<forall>i<50. i + 1 \<le> length (m ! i)"
      using ok by auto
    from al [rule_format, of 49] have r: "50 \<le> length (m ! 49)" by simp
    from l have mem: "m ! 49 \<in> set m" by simp
    from that show False
    proof
      assume "length m < 50"
      with l show False by simp
    next
      assume "\<forall>row \<in> set m. length row < 50"
      with mem have "length (m ! 49) < 50" by blast
      with r show False by simp
    qed
  qed
  show ?thesis
    using ok small
    by (auto simp: calculate_trace_eq trace_val_def MATRIX_SIZE_def)
qed

theorem calculate_trace_in_range_iff_witness:
  "calculate_trace MATRIX_SIZE [[7]] = Inl OutOfRange \<and>
   calculate_trace MATRIX_SIZE (replicate 50 (replicate 50 0)) \<noteq> Inl OutOfRange"
  using calculate_trace_in_range_iff [of "[[7]]"]
    calculate_trace_in_range_iff [of "replicate 50 (replicate 50 0)"]
  by simp

text \<open>
  Claim C5. The scenario of a matrix of size \<open>S = 2\<close> and a collection of 3 matrices, that
  is, the size constant at 2 and the collection constant at 3: \<open>calculate_trace\<close> returns
  5 on \<open>[[1,2],[3,4]]\<close>, and for three such matrices the total of a trial is 15 with one
  worker and 15 with three workers, each of which receives one matrix.
\<close>

theorem trace_2x2_scenario:
  "calculate_trace 2 [[1, 2], [3, 4]] = Inr 5 \<and>
   run_trial 3 2 [[[1, 2], [3, 4]], [[1, 2], [3, 4]], [[1, 2], [3, 4]]] 1 = Inr 15 \<and>
   run_trial 3 2 [[[1, 2], [3, 4]], [[1, 2], [3, 4]], [[1, 2], [3, 4]]] 3 = Inr 15 \<and>
   launch_threads 3 3 =
     [\<lparr>start_index = 0, end_index = 1, result_slot = 0\<rparr>,
      \<lparr>start_index = 1, end_index = 2, result_slot = 1\<rparr>,
      \<lparr>start_index = 2, end_index = 3, result_slot = 2\<rparr>]"
  by code_simp

section \<open>The partition\<close>

text \<open>
  Claim C6. For 10 matrices and 4 workers the launch loop creates the workers of the
  ranges \<open>[0,2)\<close>, \<open>[2,4)\<close>, \<open>[4,6)\<close> and \<open>[6,10)\<close>, in this order, each bound to the
  slot of its index; \<open>matrices_per_thread\<close> is 2.
\<close>

theorem partition_10_4:
  "launch_threads 10 4 =
     [\<lparr>start_index = 0, end_index = 2, result_slot = 0\<rparr>,
      \<lparr>start_index = 2, end_index = 4, result_slot = 1\<rparr>,
      \<lparr>start_index = 4, end_index = 6, result_slot = 2\<rparr>,
      \<lparr>start_index = 6, end_index = 10, result_slot = 3\<rparr>] \<and>
   (10::int) div 4 = 2"
  by code_simp

text \<open>
  Claim C2. For a collection of \<open>M\<close> matrices and \<open>N\<close> workers with
  \<open>1 \<le> N \<le> M\<close>, the launch loop creates \<open>N\<close> workers; worker \<open>k\<close> has the range
  from \<open>k * (M div N)\<close> to \<open>(k + 1) * (M div N)\<close>, the last one to \<open>M\<close>, and no range is
  empty. The ranges are contiguous (the first starts at 0, each ends where the next one
  starts, the last ends at \<open>M\<close>), pairwise disjoint, and their union is \<open>[0, M)\<close>: every
  index belongs to the range of exactly one worker, whether or not \<open>N\<close> divides \<open>M\<close>.
\<close>

theorem partition_covers_exactly_once:
  assumes M: "1 \<le> M" and N: "1 \<le> N" and NM: "N \<le> M"
  shows "length (launch_threads M N) = nat N \<and>
    (\<forall>k<nat N.
       start_index (launch_threads M N ! k) = int k * (M div N) \<and>
       end_index (launch_threads M N ! k) =
         (if int k = N - 1 then M else (int k + 1) * (M div N)) \<and>
       start_index (launch_threads M N ! k) < end_index (launch_threads M N ! k)) \<and>
    start_index (launch_threads M N ! 0) = 0 \<and>
    (\<forall>k. Suc k < nat N \<longrightarrow>
       end_index (launch_threads M N ! k) = start_index (launch_threads M N ! Suc k)) \<and>
    end_index (launch_threads M N ! (nat N - 1)) = M \<and>
    (\<forall>k<nat N. \<forall>k'<nat N. k \<noteq> k' \<longrightarrow>
       index_range (launch_threads M N ! k) \<inter> index_range (launch_threads M N ! k') = {}) \<and>
    (\<Union>k<nat N. index_range (launch_threads M N ! k)) = {0..<M} \<and>
    (\<forall>j. 0 \<le> j \<and> j < M \<longrightarrow> (\<exists>!k. k < nat N \<and> j \<in> index_range (launch_threads M N ! k)))"
proof -
  let ?ts = "launch_threads M N"
  let ?per = "M div N"
  have M0: "0 \<le> M" using M by simp
  have per1: "1 \<le> ?per" using per_pos [OF N NM] .
  have len: "length ?ts = nat N" using N by (simp add: length_launch)
  have st: "start_index (?ts ! k) = int k * ?per" if "k < nat N" for k
    using that by (simp add: nth_launch mk_thread_def)
  have en: "end_index (?ts ! k) = (if int k = N - 1 then M else (int k + 1) * ?per)"
    if "k < nat N" for k
    using that by (simp add: nth_launch mk_thread_def algebra_simps)
  have ne: "start_index (?ts ! k) < end_index (?ts ! k)" if "k < nat N" for k
  proof (cases "int k = N - 1")
    case True
    have "(N - 1) * ?per = N * ?per - ?per" by (simp add: algebra_simps)
    then have "(N - 1) * ?per < M" using per_bounds(3) [OF N M0] per1 by linarith
    then show ?thesis using that True by (simp add: st en)
  next
    case False
    have "int k * ?per < int k * ?per + ?per" using per1 by simp
    then show ?thesis using that False by (simp add: st en algebra_simps)
  qed
  have first: "start_index (?ts ! 0) = 0" using N st [of 0] by simp
  have contig: "end_index (?ts ! k) = start_index (?ts ! Suc k)" if "Suc k < nat N" for k
  proof -
    have "int k \<noteq> N - 1" using that by linarith
    then show ?thesis using that by (simp add: st en)
  qed
  have lst: "end_index (?ts ! (nat N - 1)) = M"
  proof -
    have "int (nat N - 1) = N - 1" using N by simp
    then show ?thesis using N en [of "nat N - 1"] by simp
  qed
  have disj_lt: "index_range (?ts ! k) \<inter> index_range (?ts ! k') = {}"
    if "k < k'" "k' < nat N" for k k'
    using launch_ordered [OF N M0 that] by (auto simp: index_range_def)
  have disj: "index_range (?ts ! k) \<inter> index_range (?ts ! k') = {}"
    if "k < nat N" "k' < nat N" "k \<noteq> k'" for k k'
  proof (cases "k < k'")
    case True
    then show ?thesis using that disj_lt by simp
  next
    case False
    then have "k' < k" using that by simp
    then have "index_range (?ts ! k') \<inter> index_range (?ts ! k) = {}"
      using that disj_lt by simp
    then show ?thesis by blast
  qed
  have cover: "\<exists>k<nat N. j \<in> index_range (?ts ! k)" if "0 \<le> j" "j < M" for j
  proof -
    from chain_cover [OF chain_launch_threads [OF N M0] that]
    obtain t where t: "t \<in> set ?ts" "start_index t \<le> j" "j < end_index t" by blast
    then obtain k where "k < length ?ts" "?ts ! k = t" by (auto simp: in_set_conv_nth)
    then show ?thesis using t len by (auto simp: index_range_def)
  qed
  have inside: "index_range (?ts ! k) \<subseteq> {0..<M}" if "k < nat N" for k
  proof -
    have "?ts ! k \<in> set ?ts" using that len by simp
    from launch_threads_bounds [OF N M0 this] show ?thesis
      by (auto simp: index_range_def)
  qed
  have un: "(\<Union>k<nat N. index_range (?ts ! k)) = {0..<M}"
  proof
    show "(\<Union>k<nat N. index_range (?ts ! k)) \<subseteq> {0..<M}"
      using inside by blast
    show "{0..<M} \<subseteq> (\<Union>k<nat N. index_range (?ts ! k))"
      using cover by fastforce
  qed
  have once: "\<exists>!k. k < nat N \<and> j \<in> index_range (?ts ! k)" if "0 \<le> j \<and> j < M" for j
  proof -
    from cover that obtain k where k: "k < nat N" "j \<in> index_range (?ts ! k)" by blast
    show ?thesis
    proof (rule ex1I [of _ k])
      show "k < nat N \<and> j \<in> index_range (?ts ! k)" using k by simp
    next
      fix k' assume k': "k' < nat N \<and> j \<in> index_range (?ts ! k')"
      show "k' = k"
      proof (rule ccontr)
        assume "k' \<noteq> k"
        then have "index_range (?ts ! k') \<inter> index_range (?ts ! k) = {}"
          using disj k' k by simp
        then show False using k k' by blast
      qed
    qed
  qed
  show ?thesis
    using len st en ne first contig lst disj un once by simp
qed

theorem partition_covers_exactly_once_witness:
  "length (launch_threads 10 4) = 4 \<and>
   start_index (launch_threads 10 4 ! 0) = 0 \<and>
   end_index (launch_threads 10 4 ! 3) = 10 \<and>
   end_index (launch_threads 10 4 ! 2) = start_index (launch_threads 10 4 ! 3) \<and>
   index_range (launch_threads 10 4 ! 1) \<inter> index_range (launch_threads 10 4 ! 3) = {} \<and>
   (\<Union>k<4. index_range (launch_threads 10 4 ! k)) = {0..<10} \<and>
   (\<exists>!k. k < 4 \<and> 7 \<in> index_range (launch_threads 10 4 ! k))"
proof -
  have h: "(1::int) \<le> 10" "(1::int) \<le> 4" "(4::int) \<le> 10" by simp_all
  note t = partition_covers_exactly_once [OF h]
  note t2 = t [THEN conjunct2, THEN conjunct2]
  note t4 = t2 [THEN conjunct2]
  note t5 = t4 [THEN conjunct2]
  note t6 = t5 [THEN conjunct2]
  note t7 = t6 [THEN conjunct2]
  have a: "length (launch_threads 10 4) = 4"
    using t [THEN conjunct1] by simp
  have b: "start_index (launch_threads 10 4 ! 0) = 0"
    by (rule t2 [THEN conjunct1])
  have c: "end_index (launch_threads 10 4 ! 3) = 10"
    using t5 [THEN conjunct1] by simp
  have d: "end_index (launch_threads 10 4 ! 2) = start_index (launch_threads 10 4 ! 3)"
    using t4 [THEN conjunct1, rule_format, of 2] by (simp add: eval_nat_numeral)
  have e: "index_range (launch_threads 10 4 ! 1) \<inter> index_range (launch_threads 10 4 ! 3) = {}"
    using t6 [THEN conjunct1, rule_format, of 1 3] by simp
  have f: "(\<Union>k<4. index_range (launch_threads 10 4 ! k)) = {0..<10}"
    using t7 [THEN conjunct1] by simp
  have g: "\<exists>!k. k < 4 \<and> 7 \<in> index_range (launch_threads 10 4 ! k)"
    using t7 [THEN conjunct2, rule_format, of 7] by simp
  show ?thesis by (intro conjI a b c d e f g)
qed

text \<open>
  Claim C4. For \<open>1 \<le> N \<le> M\<close> the range of the last worker has
  \<open>M - (N - 1) * (M div N)\<close> indices and the range of every other worker \<open>M div N\<close>; the
  last one is at least as large and exceeds the others by \<open>M mod N\<close>, at most \<open>N - 1\<close>.
\<close>

theorem last_partition_size:
  assumes M: "1 \<le> M" and N: "1 \<le> N" and NM: "N \<le> M"
  shows "end_index (last (launch_threads M N)) - start_index (last (launch_threads M N)) =
           M - (N - 1) * (M div N) \<and>
         (\<forall>k<nat N - 1.
            end_index (launch_threads M N ! k) - start_index (launch_threads M N ! k) = M div N) \<and>
         M div N \<le> M - (N - 1) * (M div N) \<and>
         M - (N - 1) * (M div N) - M div N \<le> N - 1 \<and>
         M - (N - 1) * (M div N) - M div N = M mod N"
proof -
  let ?ts = "launch_threads M N"
  have len: "length ?ts = nat N" using N by (simp add: length_launch)
  then have "?ts \<noteq> []" using N by auto
  then have "last ?ts = ?ts ! (nat N - 1)" by (simp add: last_conv_nth len)
  also have "\<dots> = mk_thread M N (M div N) (N - 1)"
    using N nth_launch [of "nat N - 1" N M] by simp
  finally have l: "last ?ts = mk_thread M N (M div N) (N - 1)" .
  have a: "end_index (last ?ts) - start_index (last ?ts) = M - (N - 1) * (M div N)"
    by (simp add: l mk_thread_def)
  have b: "end_index (?ts ! k) - start_index (?ts ! k) = M div N" if "k < nat N - 1" for k
  proof -
    have "int k \<noteq> N - 1" using that by linarith
    moreover have "k < nat N" using that by simp
    ultimately show ?thesis by (simp add: nth_launch mk_thread_def)
  qed
  have c: "M - (N - 1) * (M div N) - M div N = M mod N"
    using mult_div_mod_eq [of N M] by (simp add: algebra_simps)
  have d: "0 \<le> M mod N" "M mod N \<le> N - 1"
    using N pos_mod_sign [of N M] pos_mod_bound [of N M] by simp_all
  show ?thesis using a b c d by simp
qed

theorem last_partition_size_witness:
  "end_index (last (launch_threads 10 4)) - start_index (last (launch_threads 10 4)) = 4 \<and>
   end_index (launch_threads 10 4 ! 1) - start_index (launch_threads 10 4 ! 1) = 2 \<and>
   (10::int) - (4 - 1) * (10 div 4) - 10 div 4 = 10 mod 4"
proof -
  have h: "(1::int) \<le> 10" "(1::int) \<le> 4" "(4::int) \<le> 10" by simp_all
  note t = last_partition_size [OF h]
  note t2 = t [THEN conjunct2]
  have a: "end_index (last (launch_threads 10 4)) - start_index (last (launch_threads 10 4)) = 4"
    using t [THEN conjunct1] by simp
  have b: "end_index (launch_threads 10 4 ! 1) - start_index (launch_threads 10 4 ! 1) = 2"
    using t2 [THEN conjunct1, rule_format, of 1] by simp
  have c: "(10::int) - (4 - 1) * (10 div 4) - 10 div 4 = 10 mod 4"
    by (rule t2 [THEN conjunct2, THEN conjunct2, THEN conjunct2])
  show ?thesis by (intro conjI a b c)
qed

section \<open>The total\<close>

text \<open>
  Claim C1. For a collection of \<open>M\<close> matrices and \<open>1 \<le> N \<le> M\<close> workers, the total of a
  trial (the ranges of the launch loop, one worker per range storing its sum in its slot,
  the slots added up after the joins) is the sequential sum of \<open>calculate_trace\<close> over the
  whole collection, and so the total of the trial with one worker. This includes the
  faulting runs: a matrix that is read out of range makes every trial fault.
\<close>

theorem parallel_total_eq_sequential:
  assumes len: "int (length ms) = M" and N: "1 \<le> N" and NM: "N \<le> M"
  shows "run_trial M S ms N = sequential_total S ms \<and>
         run_trial M S ms N = run_trial M S ms 1"
proof -
  have M0: "0 \<le> M" using len by auto
  have "run_trial M S ms K = sequential_total S ms" if "1 \<le> K" for K
    using run_trial_eq [OF that M0, of S ms] range_ok_all [of S ms] range_sum_all [of S ms]
    by (simp add: sequential_total_eq len)
  from this [OF N] this [of 1] show ?thesis by simp
qed

theorem parallel_total_eq_sequential_witness:
  "run_trial 3 2 [[[1, 2], [3, 4]], [[5, 6], [7, 8]], [[9, 10], [11, 12]]] 2 =
     sequential_total 2 [[[1, 2], [3, 4]], [[5, 6], [7, 8]], [[9, 10], [11, 12]]] \<and>
   run_trial 3 2 [[[1, 2], [3, 4]], [[5, 6], [7, 8]], [[9, 10], [11, 12]]] 2 =
     run_trial 3 2 [[[1, 2], [3, 4]], [[5, 6], [7, 8]], [[9, 10], [11, 12]]] 1 \<and>
   sequential_total 2 [[[1, 2], [3, 4]], [[5, 6], [7, 8]], [[9, 10], [11, 12]]] = Inr 39"
proof -
  have e: "sequential_total 2 [[[1, 2], [3, 4]], [[5, 6], [7, 8]], [[9, 10], [11, 12]]] = Inr 39"
    by code_simp
  have h: "int (length [[[1, 2], [3, 4]], [[5, 6], [7, 8]], [[9, 10], [11, 12 :: cint]]]) = 3"
    "(1::int) \<le> 2" "(2::int) \<le> 3" by simp_all
  note t = parallel_total_eq_sequential [OF h, of 2]
  show ?thesis by (intro conjI t [THEN conjunct1] t [THEN conjunct2] e)
qed

text \<open>
  Claim C9. With more workers than matrices, \<open>matrices_per_thread\<close> is 0: every worker but
  the last has the empty range \<open>[0, 0)\<close>, on which \<open>trace_worker\<close> stores 0, the last one
  has \<open>[0, M)\<close>; after the joins the slots are zeros followed by the last worker's sum, and
  the total is the sequential sum over the collection.
\<close>

theorem more_workers_than_matrices:
  assumes len: "int (length ms) = M" and MN: "M < N"
  shows "M div N = 0 \<and>
    (\<forall>k<nat N. launch_threads M N ! k =
       \<lparr>start_index = 0, end_index = (if int k = N - 1 then M else 0), result_slot = k\<rparr>) \<and>
    trace_worker S ms 0 0 = Inr 0 \<and>
    join_all S ms (launch_threads M N) (replicate (nat N) 0) =
      (case trace_worker S ms 0 M of
         Inl e \<Rightarrow> Inl e
       | Inr r \<Rightarrow> Inr (replicate (nat N - 1) 0 @ [r])) \<and>
    trace_worker S ms 0 M = sequential_total S ms \<and>
    run_trial M S ms N = sequential_total S ms"
proof -
  let ?ts = "launch_threads M N"
  have M0: "0 \<le> M" using len by auto
  then have N: "1 \<le> N" using MN by simp
  have per: "M div N = 0" using M0 MN by (simp add: div_pos_pos_trivial)
  have nth: "?ts ! k = \<lparr>start_index = 0, end_index = (if int k = N - 1 then M else 0),
                           result_slot = k\<rparr>" if "k < nat N" for k
    using that by (simp add: nth_launch mk_thread_def per)
  have empty: "trace_worker S ms 0 0 = Inr 0"
    by (simp add: trace_worker_eq range_ok_empty range_sum_empty)
  have lenN: "length ?ts = nat N" using N by (simp add: length_launch)
  note c = chain_launch_threads [OF N M0]
  have vals: "map (worker_value S ms) ?ts = replicate (nat N - 1) 0 @ [range_sum S ms 0 M]"
  proof (rule nth_equalityI)
    show "length (map (worker_value S ms) ?ts) =
          length (replicate (nat N - 1) 0 @ [range_sum S ms 0 M])"
      using N by (simp add: lenN)
  next
    fix k assume "k < length (map (worker_value S ms) ?ts)"
    then have k: "k < nat N" by (simp add: lenN)
    show "map (worker_value S ms) ?ts ! k =
          (replicate (nat N - 1) 0 @ [range_sum S ms 0 M]) ! k"
    proof (cases "int k = N - 1")
      case True
      then have "k = nat N - 1" by linarith
      then show ?thesis
        using k True by (simp add: lenN nth worker_value_def nth_append)
    next
      case False
      then have "k < nat N - 1" using k by linarith
      then show ?thesis
        using k False by (simp add: lenN nth worker_value_def nth_append range_sum_empty)
    qed
  qed
  have join: "join_all S ms ?ts (replicate (nat N) 0) =
      (case trace_worker S ms 0 M of
         Inl e \<Rightarrow> Inl e
       | Inr r \<Rightarrow> Inr (replicate (nat N - 1) 0 @ [r]))"
    by (simp add: join_launch [OF N] chain_ok [OF c] vals trace_worker_eq)
  have seq: "trace_worker S ms 0 M = sequential_total S ms"
    using range_ok_all [of S ms] range_sum_all [of S ms]
    by (simp add: trace_worker_eq sequential_total_eq len)
  have tot: "run_trial M S ms N = sequential_total S ms"
    using run_trial_eq [OF N M0, of S ms] seq by (simp add: trace_worker_eq)
  show ?thesis by (intro conjI allI impI per nth empty join seq tot)
qed

theorem more_workers_than_matrices_witness:
  "(2::int) div 5 = 0 \<and>
   launch_threads 2 5 ! 1 = \<lparr>start_index = 0, end_index = 0, result_slot = 1\<rparr> \<and>
   launch_threads 2 5 ! 4 = \<lparr>start_index = 0, end_index = 2, result_slot = 4\<rparr> \<and>
   join_all 2 [[[1, 2], [3, 4]], [[5, 6], [7, 8]]] (launch_threads 2 5) (replicate 5 0) =
     Inr [0, 0, 0, 0, 18] \<and>
   run_trial 2 2 [[[1, 2], [3, 4]], [[5, 6], [7, 8]]] 5 = Inr 18"
proof -
  have h: "int (length [[[1, 2], [3, 4]], [[5, 6], [7, 8 :: cint]]]) = 2" "(2::int) < 5"
    by simp_all
  note t = more_workers_than_matrices [OF h, of 2]
  note t2 = t [THEN conjunct2]
  note t4 = t2 [THEN conjunct2, THEN conjunct2]
  have e: "sequential_total 2 [[[1, 2], [3, 4]], [[5, 6], [7, 8]]] = Inr 18"
    by code_simp
  have a: "(2::int) div 5 = 0" by (rule t [THEN conjunct1])
  have b: "launch_threads 2 5 ! 1 = \<lparr>start_index = 0, end_index = 0, result_slot = 1\<rparr>"
    using t2 [THEN conjunct1, rule_format, of 1] by simp
  have c: "launch_threads 2 5 ! 4 = \<lparr>start_index = 0, end_index = 2, result_slot = 4\<rparr>"
    using t2 [THEN conjunct1, rule_format, of 4] by simp
  have w: "trace_worker 2 [[[1, 2], [3, 4]], [[5, 6], [7, 8]]] 0 2 = Inr 18"
    using t4 [THEN conjunct2, THEN conjunct1] e by simp
  have d: "join_all 2 [[[1, 2], [3, 4]], [[5, 6], [7, 8]]] (launch_threads 2 5) (replicate 5 0) =
     Inr [0, 0, 0, 0, 18]"
    using t4 [THEN conjunct1] w by (simp add: eval_nat_numeral)
  have f: "run_trial 2 2 [[[1, 2], [3, 4]], [[5, 6], [7, 8]]] 5 = Inr 18"
    using t4 [THEN conjunct2, THEN conjunct2] e by simp
  show ?thesis by (intro conjI a b c d f)
qed

section \<open>No overflow under the program's parameters\<close>

text \<open>
  Claim C7. Take the program's parameters: 1000 matrices of 50 rows and 50 columns, every
  element between \<open>RANDOM_MIN = -100\<close> and \<open>RANDOM_MAX = 100\<close>, and any number
  \<open>N \<ge> 1\<close> of workers (the program uses 1, 2, 4 and 8). Then no accumulation leaves the
  64-bit signed range: each 64-bit sum, read as a signed value, is the sum over the
  unbounded integers.
  \<^item> The trace of a matrix, and the accumulator after any number \<open>n \<le> 50\<close> of additions
    (by \<open>trace_loop_accumulator\<close> it is the trace over the first \<open>n\<close> positions), is exact
    and at most 5000 in absolute value.
  \<^item> The partial sum of every worker, and its accumulator at any index \<open>e\<close> of its range
    (by \<open>worker_loop_accumulator\<close> it is the worker's sum up to \<open>e\<close>), is exact and at
    most 5,000,000 in absolute value.
  \<^item> No worker faults; the aggregation over any number of the slots is the exact sum of
    their signed values, at most 5,000,000 in absolute value, and the grand total is the
    exact sum over the whole collection.
\<close>

theorem no_accumulation_overflows:
  assumes len: "length ms = nat NUM_MATRICES"
    and b: "\<forall>m \<in> set ms. bounded_matrix MATRIX_SIZE RANDOM_MIN RANDOM_MAX m"
    and N: "1 \<le> N"
  shows
   "(\<forall>m \<in> set ms. \<forall>n. 0 \<le> n \<and> n \<le> MATRIX_SIZE \<longrightarrow>
       (\<exists>t. calculate_trace n m = Inr t \<and> sint t = exact_trace n m \<and> \<bar>sint t\<bar> \<le> 5000)) \<and>
    (\<forall>t \<in> set (launch_threads NUM_MATRICES N).
       \<forall>e. start_index t \<le> e \<and> e \<le> end_index t \<longrightarrow>
         (\<exists>p. trace_worker MATRIX_SIZE ms (start_index t) e = Inr p \<and>
              sint p = exact_sum MATRIX_SIZE ms (start_index t) e \<and> \<bar>sint p\<bar> \<le> 5000000)) \<and>
    (\<exists>prs. join_all MATRIX_SIZE ms (launch_threads NUM_MATRICES N) (replicate (nat N) 0) = Inr prs \<and>
       (\<forall>k\<le>length prs.
          sint (aggregate (take k prs)) = sum_list (map sint (take k prs)) \<and>
          \<bar>sint (aggregate (take k prs))\<bar> \<le> 5000000) \<and>
       run_trial NUM_MATRICES MATRIX_SIZE ms N = Inr (aggregate prs) \<and>
       sint (aggregate prs) = exact_sum MATRIX_SIZE ms 0 NUM_MATRICES \<and>
       \<bar>sint (aggregate prs)\<bar> \<le> 5000000)"
proof -
  let ?ts = "launch_threads NUM_MATRICES N"
  have M0: "0 \<le> NUM_MATRICES" by (simp add: NUM_MATRICES_def)
  note c = chain_launch_threads [OF N M0]
  have A: "\<exists>t. calculate_trace n m = Inr t \<and> sint t = exact_trace n m \<and> \<bar>sint t\<bar> \<le> 5000"
    if "m \<in> set ms" "0 \<le> n \<and> n \<le> MATRIX_SIZE" for m n
  proof -
    have bm: "bounded_matrix MATRIX_SIZE RANDOM_MIN RANDOM_MAX m" using b that(1) by simp
    from bounded_trace [OF bm, of n] that(2)
    have "trace_ok n m" "sint (trace_val n m) = exact_trace n m" "\<bar>exact_trace n m\<bar> \<le> 100 * n"
      by simp_all
    moreover have "100 * n \<le> 5000" using that(2) by (simp add: MATRIX_SIZE_def)
    ultimately show ?thesis by (simp add: calculate_trace_eq)
  qed
  have rng: "range_ok MATRIX_SIZE ms a e"
    "sint (range_sum MATRIX_SIZE ms a e) = exact_sum MATRIX_SIZE ms a e"
    "\<bar>sint (range_sum MATRIX_SIZE ms a e)\<bar> \<le> 5000000"
    if "0 \<le> a" "a \<le> e" "e \<le> NUM_MATRICES" for a e
  proof -
    note br = bounded_range [OF len b that]
    show "range_ok MATRIX_SIZE ms a e" by (rule br [THEN conjunct1])
    show eq: "sint (range_sum MATRIX_SIZE ms a e) = exact_sum MATRIX_SIZE ms a e"
      by (rule br [THEN conjunct2, THEN conjunct1])
    have "5000 * (e - a) \<le> 5000000" using that by (simp add: NUM_MATRICES_def)
    then show "\<bar>sint (range_sum MATRIX_SIZE ms a e)\<bar> \<le> 5000000"
      using br [THEN conjunct2, THEN conjunct2] unfolding eq by linarith
  qed
  have B: "\<exists>p. trace_worker MATRIX_SIZE ms (start_index t) e = Inr p \<and>
              sint p = exact_sum MATRIX_SIZE ms (start_index t) e \<and> \<bar>sint p\<bar> \<le> 5000000"
    if "t \<in> set ?ts" "start_index t \<le> e \<and> e \<le> end_index t" for t e
  proof -
    from chain_bounds [OF c that(1)]
    have "0 \<le> start_index t" "end_index t \<le> NUM_MATRICES" by simp_all
    then have "0 \<le> start_index t" "start_index t \<le> e" "e \<le> NUM_MATRICES"
      using that(2) by simp_all
    from rng [OF this] show ?thesis by (simp add: trace_worker_eq)
  qed
  let ?prs = "map (worker_value MATRIX_SIZE ms) ?ts"
  have allok: "\<forall>t \<in> set ?ts. worker_ok MATRIX_SIZE ms t"
    using rng [OF order.refl M0 order.refl] by (simp add: chain_ok [OF c])
  have join: "join_all MATRIX_SIZE ms ?ts (replicate (nat N) 0) = Inr ?prs"
    using allok by (simp add: join_launch [OF N])
  have pre: "sint (aggregate (take k ?prs)) = sum_list (map sint (take k ?prs)) \<and>
             \<bar>sint (aggregate (take k ?prs))\<bar> \<le> 5000000" for k
  proof -
    from chain_take [OF c, of k] obtain e where
      e: "chain 0 (take k ?ts) e" "0 \<le> e" "e \<le> NUM_MATRICES" by blast
    have "aggregate (take k ?prs) = range_sum MATRIX_SIZE ms 0 e"
      using chain_sum [OF e(1), of MATRIX_SIZE ms] by (simp add: aggregate_eq take_map)
    moreover have "sum_list (map sint (take k ?prs)) = exact_sum MATRIX_SIZE ms 0 e"
      using chain_exact [OF len b e(1) order.refl e(3)] by (simp add: take_map)
    ultimately show ?thesis using rng [OF order.refl e(2,3)] by simp
  qed
  have tot: "run_trial NUM_MATRICES MATRIX_SIZE ms N = Inr (aggregate ?prs)"
    using N join by (simp add: run_trial_def)
  have "aggregate ?prs = range_sum MATRIX_SIZE ms 0 NUM_MATRICES"
    using chain_sum [OF c, of MATRIX_SIZE ms] by (simp add: aggregate_eq)
  then have fin: "sint (aggregate ?prs) = exact_sum MATRIX_SIZE ms 0 NUM_MATRICES"
    "\<bar>sint (aggregate ?prs)\<bar> \<le> 5000000"
    using rng [OF order.refl M0 order.refl] by simp_all
  have C: "\<exists>prs. join_all MATRIX_SIZE ms ?ts (replicate (nat N) 0) = Inr prs \<and>
       (\<forall>k\<le>length prs.
          sint (aggregate (take k prs)) = sum_list (map sint (take k prs)) \<and>
          \<bar>sint (aggregate (take k prs))\<bar> \<le> 5000000) \<and>
       run_trial NUM_MATRICES MATRIX_SIZE ms N = Inr (aggregate prs) \<and>
       sint (aggregate prs) = exact_sum MATRIX_SIZE ms 0 NUM_MATRICES \<and>
       \<bar>sint (aggregate prs)\<bar> \<le> 5000000"
    by (rule exI [of _ ?prs]) (intro conjI allI impI join pre tot fin)
  show ?thesis
    using A B C by blast
qed

theorem no_accumulation_overflows_witness:
  "\<exists>t prs. calculate_trace MATRIX_SIZE (replicate 50 (replicate 50 7)) = Inr t \<and>
     \<bar>sint t\<bar> \<le> 5000 \<and>
     join_all MATRIX_SIZE (replicate 1000 (replicate 50 (replicate 50 7)))
       (launch_threads NUM_MATRICES 4) (replicate (nat 4) 0) = Inr prs \<and>
     run_trial NUM_MATRICES MATRIX_SIZE (replicate 1000 (replicate 50 (replicate 50 7))) 4 =
       Inr (aggregate prs) \<and>
     \<bar>sint (aggregate prs)\<bar> \<le> 5000000"
proof -
  let ?m = "replicate 50 (replicate 50 (7 :: cint))"
  let ?ms = "replicate 1000 ?m"
  have h1: "length ?ms = nat NUM_MATRICES" by (simp add: NUM_MATRICES_def)
  have h2: "\<forall>m \<in> set ?ms. bounded_matrix MATRIX_SIZE RANDOM_MIN RANDOM_MAX m"
    by (simp add: bounded_matrix_def MATRIX_SIZE_def RANDOM_MIN_def RANDOM_MAX_def)
  have h3: "(1::int) \<le> 4" by simp
  note t = no_accumulation_overflows [OF h1 h2 h3]
  have "?m \<in> set ?ms" by simp
  with t [THEN conjunct1] have
    "\<exists>t. calculate_trace MATRIX_SIZE ?m = Inr t \<and> sint t = exact_trace MATRIX_SIZE ?m \<and> \<bar>sint t\<bar> \<le> 5000"
    by (simp add: MATRIX_SIZE_def)
  then obtain tr where tr: "calculate_trace MATRIX_SIZE ?m = Inr tr" "\<bar>sint tr\<bar> \<le> 5000"
    by blast
  from t [THEN conjunct2, THEN conjunct2] obtain prs where
    "join_all MATRIX_SIZE ?ms (launch_threads NUM_MATRICES 4) (replicate (nat 4) 0) = Inr prs"
    "run_trial NUM_MATRICES MATRIX_SIZE ?ms 4 = Inr (aggregate prs)"
    "\<bar>sint (aggregate prs)\<bar> \<le> 5000000"
    by blast
  with tr show ?thesis by blast
qed

section \<open>The driver\<close>



end
